theory Spec2Isabelle
  imports Main
begin

section \<open>Values, setters and the error console\<close>

text \<open>
  A cell holds JavaScript values. The value \<open>undefined\<close> is made explicit because
  \<open>readValue\<close> can return it in place of a value of the declared type; every other
  value is an element of the type parameter \<open>'v\<close>, and \<open>===\<close> on values is HOL
  equality (reference identity for objects; the one value that is not \<open>===\<close> to
  itself, NaN, is not an element of \<open>'v\<close>).
\<close>

datatype 'v val = Undefined | Val 'v

text \<open>
  The first argument of \<open>readValue\<close> is tested with \<open>typeof getter === 'function'\<close>:
  it is either a plain value or a function. A function is modelled by what one call of
  it does on its argument: it returns a value (\<open>Inr\<close>) or throws (\<open>Inl\<close>).
\<close>

datatype ('v, 'e) getter = Value "'v val" | Function "'v val \<Rightarrow> 'e + 'v val"

text \<open>One line written by \<open>console.error('Failed to read value:', { getter, state, error })\<close>.\<close>

datatype ('v, 'e) report = Failed_to_read_value "('v, 'e) getter" "'v val" 'e

text \<open>
  \<open>readValue\<close> returns its result together with the lines it wrote to the console.
\<close>

definition readValue :: "('v, 'e) getter \<Rightarrow> 'v val \<Rightarrow> 'v val \<times> ('v, 'e) report list" where
  "readValue getter state =
     (case getter of
        Value v \<Rightarrow> (v, [])
      | Function f \<Rightarrow>
          (case f state of
             Inr v \<Rightarrow> (v, [])
           | Inl error \<Rightarrow> (state, [Failed_to_read_value getter state error])))"

section \<open>The observable cell\<close>

text \<open>
  The variables that the closures of \<open>createObservable\<close> share (\<open>state.current\<close>,
  \<open>state.future\<close>, \<open>state.queued\<close>, \<open>debounceId\<close>, \<open>subscribers\<close>) are the first
  five fields. A subscriber is a function object, identified by its reference (a
  number); the \<open>Set\<close> of subscribers is the list of its members in insertion order.

  The rest is the part of the host that the cell touches: \<open>pending\<close> holds the handles
  of the callbacks scheduled with \<open>enqueue\<close> and not yet run or cancelled (each of
  them runs \<open>trigger\<close>), \<open>nextId\<close> is the next handle the host hands out,
  \<open>console\<close> the lines written by \<open>console.error\<close>, and \<open>calls\<close> the record of
  every subscriber invocation so far, as (subscriber, newValue, oldValue).
\<close>

record ('v, 'e) cell =
  current :: "'v val"
  future :: "'v val"
  queued :: bool
  debounceId :: nat
  subscribers :: "nat list"
  pending :: "nat list"
  nextId :: nat
  console :: "('v, 'e) report list"
  calls :: "(nat \<times> 'v val \<times> 'v val) list"

text \<open>
  The code of the subscribers: \<open>cb s newValue oldValue\<close> is what calling the function
  with reference \<open>s\<close> does, \<open>None\<close> when it returns and \<open>Some e\<close> when it throws
  \<open>e\<close>. This is the model of subscribers that do not call back into the cell while
  they are notified. Subscribers that do are modelled further down by \<open>emit_from\<close>,
  \<open>trigger_live\<close> and \<open>set_live\<close>; \<open>set_live_agrees\<close> and \<open>tick_live_agrees\<close>
  show that the two models agree on subscribers that call nothing but \<open>get\<close>. A setter
  function is taken not to call back into the cell.
\<close>

type_synonym ('v, 'e) callbacks = "nat \<Rightarrow> 'v val \<Rightarrow> 'v val \<Rightarrow> 'e option"

text \<open>
  \<open>enqueue\<close> (\<open>setTimeout\<close> or \<open>requestAnimationFrame\<close>) schedules a callback and
  returns a fresh handle; \<open>dequeue\<close> (\<open>clearTimeout\<close> or \<open>cancelAnimationFrame\<close>)
  cancels the callback with the given handle, and does nothing when there is none.
\<close>

definition enqueue :: "('v, 'e) cell \<Rightarrow> nat \<times> ('v, 'e) cell" where
  "enqueue w = (nextId w, w\<lparr>pending := pending w @ [nextId w], nextId := Suc (nextId w)\<rparr>)"

definition dequeue :: "nat \<Rightarrow> ('v, 'e) cell \<Rightarrow> ('v, 'e) cell" where
  "dequeue i w = w\<lparr>pending := removeAll i (pending w)\<rparr>"

text \<open>
  \<open>emit\<close>: the loop \<open>for (const subscriber of subscribers) subscriber(newValue, oldValue)\<close>.
  There is no \<open>try\<close> around the call, so the first subscriber that throws ends the loop
  and its exception leaves \<open>emit\<close>. The subscribers of this model do not call back
  into the cell, so the set is the same throughout the loop, and the loop runs over its
  members as they are when \<open>emit\<close> starts.
\<close>

fun emit_loop ::
  "('v, 'e) callbacks \<Rightarrow> nat list \<Rightarrow> 'v val \<Rightarrow> 'v val \<Rightarrow> ('v, 'e) cell \<Rightarrow> ('e + unit) \<times> ('v, 'e) cell" where
  "emit_loop cb [] newValue oldValue w = (Inr (), w)"
| "emit_loop cb (subscriber # rest) newValue oldValue w =
     (let w' = w\<lparr>calls := calls w @ [(subscriber, newValue, oldValue)]\<rparr>
      in case cb subscriber newValue oldValue of
           Some e \<Rightarrow> (Inl e, w')
         | None \<Rightarrow> emit_loop cb rest newValue oldValue w')"

definition emit ::
  "('v, 'e) callbacks \<Rightarrow> 'v val \<Rightarrow> 'v val \<Rightarrow> ('v, 'e) cell \<Rightarrow> ('e + unit) \<times> ('v, 'e) cell" where
  "emit cb newValue oldValue w = emit_loop cb (subscribers w) newValue oldValue w"

definition trigger :: "('v, 'e) callbacks \<Rightarrow> ('v, 'e) cell \<Rightarrow> ('e + unit) \<times> ('v, 'e) cell" where
  "trigger cb w =
     (if \<not> queued w then (Inr (), w)
      else
        let w1 = w\<lparr>queued := False\<rparr>
        in if current w1 = future w1 then (Inr (), w1)
           else
             let oldValue = current w1;
                 newValue = future w1;
                 w2 = w1\<lparr>current := newValue\<rparr>
             in emit cb newValue oldValue w2)"

definition get :: "('v, 'e) cell \<Rightarrow> 'v val" where
  "get w = current w"

definition set_obs ::
  "('v, 'e) callbacks \<Rightarrow> ('v, 'e) getter \<Rightarrow> bool \<Rightarrow> ('v, 'e) cell \<Rightarrow> ('e + unit) \<times> ('v, 'e) cell" where
  "set_obs cb newValue immediate w =
     (let (v, msgs) = readValue newValue (current w);
          w1 = w\<lparr>future := v, console := console w @ msgs\<rparr>
      in if immediate then trigger cb ((dequeue (debounceId w1) w1)\<lparr>queued := True\<rparr>)
         else if \<not> queued w1 then
           (let (i, w2) = enqueue (w1\<lparr>queued := True\<rparr>)
            in (Inr (), w2\<lparr>debounceId := i\<rparr>))
         else (Inr (), w1))"

definition clear :: "('v, 'e) cell \<Rightarrow> ('v, 'e) cell" where
  "clear w = w\<lparr>subscribers := []\<rparr>"

definition unsubscribe :: "nat \<Rightarrow> ('v, 'e) cell \<Rightarrow> ('v, 'e) cell" where
  "unsubscribe subscriber w = w\<lparr>subscribers := removeAll subscriber (subscribers w)\<rparr>"

definition subscribe ::
  "nat \<Rightarrow> ('v, 'e) cell \<Rightarrow> (('v, 'e) cell \<Rightarrow> ('v, 'e) cell) \<times> ('v, 'e) cell" where
  "subscribe subscriber w =
     (unsubscribe subscriber,
      w\<lparr>subscribers :=
           (if subscriber \<in> set (subscribers w) then subscribers w
            else subscribers w @ [subscriber])\<rparr>)"

definition createObservable :: "('v, 'e) getter \<Rightarrow> ('v, 'e) cell" where
  "createObservable initialValue =
     (let (v, msgs) = readValue initialValue Undefined
      in \<lparr>current = v, future = v, queued = False, debounceId = 0, subscribers = [],
          pending = [], nextId = 1, console = msgs, calls = []\<rparr>)"

text \<open>
  The host runs a scheduled callback: the oldest pending handle is consumed and
  \<open>trigger\<close> runs. An exception of \<open>trigger\<close> goes to the host.
\<close>

definition tick :: "('v, 'e) callbacks \<Rightarrow> ('v, 'e) cell \<Rightarrow> ('e + unit) \<times> ('v, 'e) cell" where
  "tick cb w =
     (case pending w of
        [] \<Rightarrow> (Inr (), w)
      | i # rest \<Rightarrow> trigger cb (w\<lparr>pending := rest\<rparr>))"

section \<open>The store\<close>

text \<open>
  \<open>createObservable\<close> above gives the state that the closures share. The object it
  returns, \<open>{ get, set, clear, subscribe, unsubscribe }\<close>, is \<open>observable\<close>: a
  JavaScript object is a finite map from property names to values, and each of the five
  methods is a function of the cell. A member of a store is one of these methods or a
  function of the caller's (\<open>Action\<close>), which acts on the cell and returns a value or
  throws.
\<close>

datatype ('v, 'e) member =
    Get_method "('v, 'e) cell \<Rightarrow> 'v val"
  | Set_method "('v, 'e) getter \<Rightarrow> bool \<Rightarrow> ('v, 'e) cell \<Rightarrow> ('e + unit) \<times> ('v, 'e) cell"
  | Clear_method "('v, 'e) cell \<Rightarrow> ('v, 'e) cell"
  | Subscribe_method "nat \<Rightarrow> ('v, 'e) cell \<Rightarrow> (('v, 'e) cell \<Rightarrow> ('v, 'e) cell) \<times> ('v, 'e) cell"
  | Unsubscribe_method "nat \<Rightarrow> ('v, 'e) cell \<Rightarrow> ('v, 'e) cell"
  | Action "('v, 'e) cell \<Rightarrow> ('e + 'v val) \<times> ('v, 'e) cell"

type_synonym ('v, 'e) object = "string \<rightharpoonup> ('v, 'e) member"

definition observable :: "('v, 'e) callbacks \<Rightarrow> ('v, 'e) object" where
  "observable cb =
     [''get'' \<mapsto> Get_method get,
      ''set'' \<mapsto> Set_method (set_obs cb),
      ''clear'' \<mapsto> Clear_method clear,
      ''subscribe'' \<mapsto> Subscribe_method subscribe,
      ''unsubscribe'' \<mapsto> Unsubscribe_method unsubscribe]"

text \<open>
  \<open>createStore\<close>: \<open>const state = createObservable(store); return { ...state, ...actions(state) }\<close>.
  The factory \<open>actions\<close> is code of the caller: it receives the observable, may act on
  the cell, and returns the object of its actions or throws. In the spread, a property
  of the second object replaces a property of the first with the same name
  (\<open>++\<close> on maps).
\<close>

definition createStore ::
  "('v, 'e) callbacks \<Rightarrow> ('v, 'e) getter \<Rightarrow>
   (('v, 'e) object \<Rightarrow> ('v, 'e) cell \<Rightarrow> ('e + ('v, 'e) object) \<times> ('v, 'e) cell) \<Rightarrow>
   ('e + ('v, 'e) object) \<times> ('v, 'e) cell" where
  "createStore cb store actions =
     (let w = createObservable store;
          state = observable cb
      in case actions state w of
           (Inl e, w') \<Rightarrow> (Inl e, w')
         | (Inr a, w') \<Rightarrow> (Inr (state ++ a), w'))"

section \<open>Subscribers that call back into the cell\<close>

text \<open>
  A subscriber holds the observable and may call its methods while it is notified. Its
  body is then a program over the five methods: each constructor but the first two is
  one call followed by the rest of the body, which after \<open>get\<close> depends on the value
  read and after \<open>set\<close> on whether the call returned or threw (the body may go on, or
  let the exception through with \<open>Throw\<close>). The closure that \<open>subscribe\<close> returns
  is \<open>unsubscribe\<close> of the same function, so a call of it is \<open>Call_unsubscribe\<close>.
  \<open>code s newValue oldValue\<close> is the body of the subscriber with reference \<open>s\<close>,
  applied to its two arguments.
\<close>

datatype ('v, 'e) prog =
    Return
  | Throw 'e
  | Call_get "'v val \<Rightarrow> ('v, 'e) prog"
  | Call_set "('v, 'e) getter" bool "'e + unit \<Rightarrow> ('v, 'e) prog"
  | Call_clear "('v, 'e) prog"
  | Call_subscribe nat "('v, 'e) prog"
  | Call_unsubscribe nat "('v, 'e) prog"

type_synonym ('v, 'e) code = "nat \<Rightarrow> 'v val \<Rightarrow> 'v val \<Rightarrow> ('v, 'e) prog"

text \<open>
  The cell again, with the \<open>Set\<close> of subscribers as ECMAScript specifies it: a list of
  entries that only grows. \<open>add\<close> appends a value that is not in the list, \<open>delete\<close>
  and \<open>clear\<close> empty entries in place, and an iterator is an index into the list that
  skips the empty entries, so the loop of \<open>emit\<close> sees what a subscriber adds or
  removes while the loop runs. The fields are those of \<open>cell\<close> in the same order.
\<close>

record ('v, 'e) live =
  state_current :: "'v val"
  state_future :: "'v val"
  state_queued :: bool
  debounce :: nat
  entries :: "nat option list"
  timers :: "nat list"
  fresh :: nat
  errors :: "('v, 'e) report list"
  trace :: "(nat \<times> 'v val \<times> 'v val) list"

definition members :: "nat option list \<Rightarrow> nat list" where
  "members es = List.map_filter (\<lambda>e. e) es"

definition get_live :: "('v, 'e) live \<Rightarrow> 'v val" where
  "get_live w = state_current w"

definition clear_live :: "('v, 'e) live \<Rightarrow> ('v, 'e) live" where
  "clear_live w = w\<lparr>entries := map (\<lambda>e. None) (entries w)\<rparr>"

definition unsubscribe_live :: "nat \<Rightarrow> ('v, 'e) live \<Rightarrow> ('v, 'e) live" where
  "unsubscribe_live subscriber w =
     w\<lparr>entries := map (\<lambda>e. if e = Some subscriber then None else e) (entries w)\<rparr>"

definition subscribe_live ::
  "nat \<Rightarrow> ('v, 'e) live \<Rightarrow> (('v, 'e) live \<Rightarrow> ('v, 'e) live) \<times> ('v, 'e) live" where
  "subscribe_live subscriber w =
     (unsubscribe_live subscriber,
      w\<lparr>entries :=
           (if Some subscriber \<in> set (entries w) then entries w
            else entries w @ [Some subscriber])\<rparr>)"

definition enqueue_live :: "('v, 'e) live \<Rightarrow> nat \<times> ('v, 'e) live" where
  "enqueue_live w = (fresh w, w\<lparr>timers := timers w @ [fresh w], fresh := Suc (fresh w)\<rparr>)"

definition dequeue_live :: "nat \<Rightarrow> ('v, 'e) live \<Rightarrow> ('v, 'e) live" where
  "dequeue_live i w = w\<lparr>timers := removeAll i (timers w)\<rparr>"

text \<open>
  The body of a subscriber, \<open>emit\<close> from a given index of the entries, \<open>trigger\<close> and
  \<open>set\<close> call each other: \<open>emit\<close> runs the subscribers, a subscriber may call
  \<open>set\<close>, an immediate \<open>set\<close> calls \<open>trigger\<close>, and \<open>trigger\<close> calls \<open>emit\<close>.
  A subscriber that writes a new value at once whenever it is notified never returns,
  so each function takes fuel, passes one unit less to every call it makes, and gives
  \<open>None\<close> when the fuel is used up.
\<close>

fun run_prog ::
    "('v, 'e) code \<Rightarrow> nat \<Rightarrow> ('v, 'e) prog \<Rightarrow> ('v, 'e) live \<Rightarrow> (('e + unit) \<times> ('v, 'e) live) option"
  and emit_from ::
    "('v, 'e) code \<Rightarrow> nat \<Rightarrow> nat \<Rightarrow> 'v val \<Rightarrow> 'v val \<Rightarrow> ('v, 'e) live \<Rightarrow> (('e + unit) \<times> ('v, 'e) live) option"
  and trigger_live ::
    "('v, 'e) code \<Rightarrow> nat \<Rightarrow> ('v, 'e) live \<Rightarrow> (('e + unit) \<times> ('v, 'e) live) option"
  and set_live ::
    "('v, 'e) code \<Rightarrow> nat \<Rightarrow> ('v, 'e) getter \<Rightarrow> bool \<Rightarrow> ('v, 'e) live \<Rightarrow> (('e + unit) \<times> ('v, 'e) live) option"
where
  "run_prog code 0 p w = None"
| "run_prog code (Suc n) Return w = Some (Inr (), w)"
| "run_prog code (Suc n) (Throw e) w = Some (Inl e, w)"
| "run_prog code (Suc n) (Call_get k) w = run_prog code n (k (get_live w)) w"
| "run_prog code (Suc n) (Call_set newValue immediate k) w =
     (case set_live code n newValue immediate w of
        None \<Rightarrow> None
      | Some (r, w') \<Rightarrow> run_prog code n (k r) w')"
| "run_prog code (Suc n) (Call_clear p) w = run_prog code n p (clear_live w)"
| "run_prog code (Suc n) (Call_subscribe s p) w = run_prog code n p (snd (subscribe_live s w))"
| "run_prog code (Suc n) (Call_unsubscribe s p) w = run_prog code n p (unsubscribe_live s w)"
| "emit_from code 0 i newValue oldValue w = None"
| "emit_from code (Suc n) i newValue oldValue w =
     (if i < length (entries w) then
        (case entries w ! i of
           None \<Rightarrow> emit_from code n (Suc i) newValue oldValue w
         | Some subscriber \<Rightarrow>
             (case run_prog code n (code subscriber newValue oldValue)
                     (w\<lparr>trace := trace w @ [(subscriber, newValue, oldValue)]\<rparr>) of
                None \<Rightarrow> None
              | Some (Inl e, w') \<Rightarrow> Some (Inl e, w')
              | Some (Inr u, w') \<Rightarrow> emit_from code n (Suc i) newValue oldValue w'))
      else Some (Inr (), w))"
| "trigger_live code 0 w = None"
| "trigger_live code (Suc n) w =
     (if \<not> state_queued w then Some (Inr (), w)
      else
        let w1 = w\<lparr>state_queued := False\<rparr>
        in if state_current w1 = state_future w1 then Some (Inr (), w1)
           else
             let oldValue = state_current w1;
                 newValue = state_future w1;
                 w2 = w1\<lparr>state_current := newValue\<rparr>
             in emit_from code n 0 newValue oldValue w2)"
| "set_live code 0 newValue immediate w = None"
| "set_live code (Suc n) newValue immediate w =
     (let (v, msgs) = readValue newValue (state_current w);
          w1 = w\<lparr>state_future := v, errors := errors w @ msgs\<rparr>
      in if immediate then trigger_live code n ((dequeue_live (debounce w1) w1)\<lparr>state_queued := True\<rparr>)
         else if \<not> state_queued w1 then
           (let (i, w2) = enqueue_live (w1\<lparr>state_queued := True\<rparr>)
            in Some (Inr (), w2\<lparr>debounce := i\<rparr>))
         else Some (Inr (), w1))"

definition tick_live ::
  "('v, 'e) code \<Rightarrow> nat \<Rightarrow> ('v, 'e) live \<Rightarrow> (('e + unit) \<times> ('v, 'e) live) option" where
  "tick_live code n w =
     (case timers w of
        [] \<Rightarrow> Some (Inr (), w)
      | i # rest \<Rightarrow> trigger_live code n (w\<lparr>timers := rest\<rparr>))"

definition createObservable_live :: "('v, 'e) getter \<Rightarrow> ('v, 'e) live" where
  "createObservable_live initialValue =
     (let (v, msgs) = readValue initialValue Undefined
      in \<lparr>state_current = v, state_future = v, state_queued = False, debounce = 0, entries = [],
          timers = [], fresh = 1, errors = msgs, trace = []\<rparr>)"

section \<open>Vocabulary for the properties\<close>

text \<open>
  What \<open>emit\<close> does, said without its recursion: \<open>notified\<close> is the list of the
  subscribers it calls (those that return, then the first one that throws, if any), and
  \<open>thrown\<close> is the exception that leaves it, if any.
\<close>

definition notified :: "('v, 'e) callbacks \<Rightarrow> nat list \<Rightarrow> 'v val \<Rightarrow> 'v val \<Rightarrow> nat list" where
  "notified cb ss newValue oldValue =
     (let ok = takeWhile (\<lambda>s. cb s newValue oldValue = None) ss
      in ok @ take 1 (drop (length ok) ss))"

definition thrown :: "('v, 'e) callbacks \<Rightarrow> nat list \<Rightarrow> 'v val \<Rightarrow> 'v val \<Rightarrow> 'e option" where
  "thrown cb ss newValue oldValue =
     (case List.map_filter (\<lambda>s. cb s newValue oldValue) ss of [] \<Rightarrow> None | e # _ \<Rightarrow> Some e)"

text \<open>The invariant of the data model: outside an open batch, \<open>current\<close> and \<open>future\<close> agree.\<close>

definition no_divergence :: "('v, 'e) cell \<Rightarrow> bool" where
  "no_divergence w = (\<not> queued w \<longrightarrow> current w = future w)"

text \<open>
  The cell and the host agree: the callback scheduled by the cell is pending exactly
  while \<open>queued\<close> is set, its handle is \<open>debounceId\<close>, and the subscriber set has no
  duplicates. Every state reached from \<open>createObservable\<close> is of this kind
  (\<open>reachable_consistent\<close> below).
\<close>

definition consistent :: "('v, 'e) cell \<Rightarrow> bool" where
  "consistent w =
     (pending w = (if queued w then [debounceId w] else []) \<and> distinct (subscribers w))"

text \<open>
  A client of the cell: a sequence of calls of its five methods and of runs of the
  host's scheduled callback. An exception that leaves \<open>set\<close> or the callback is
  caught by the client (or the host), which goes on with the next step.
\<close>

datatype ('v, 'e) op =
    Op_get
  | Op_set "('v, 'e) getter" bool
  | Op_clear
  | Op_subscribe nat
  | Op_unsubscribe nat
  | Op_tick

fun exec :: "('v, 'e) callbacks \<Rightarrow> ('v, 'e) op \<Rightarrow> ('v, 'e) cell \<Rightarrow> ('v, 'e) cell" where
  "exec cb Op_get w = w"
| "exec cb (Op_set newValue immediate) w = snd (set_obs cb newValue immediate w)"
| "exec cb Op_clear w = clear w"
| "exec cb (Op_subscribe s) w = snd (subscribe s w)"
| "exec cb (Op_unsubscribe s) w = unsubscribe s w"
| "exec cb Op_tick w = snd (tick cb w)"

definition run :: "('v, 'e) callbacks \<Rightarrow> ('v, 'e) op list \<Rightarrow> ('v, 'e) cell \<Rightarrow> ('v, 'e) cell" where
  "run cb ops w = fold (exec cb) ops w"

text \<open>The invocations of one subscriber among all those recorded so far.\<close>

definition invocations :: "nat \<Rightarrow> ('v, 'e) cell \<Rightarrow> (nat \<times> 'v val \<times> 'v val) list" where
  "invocations s w = filter (\<lambda>c. fst c = s) (calls w)"

text \<open>
  Everything of a cell that \<open>get\<close> and \<open>set\<close> read or write, and the scheduled
  callback with them: all but the subscriber set and the record of invocations.
\<close>

definition value_part ::
  "('v, 'e) cell \<Rightarrow> 'v val \<times> 'v val \<times> bool \<times> nat \<times> nat list \<times> nat \<times> ('v, 'e) report list" where
  "value_part w = (current w, future w, queued w, debounceId w, pending w, nextId w, console w)"

text \<open>
  Subscribers that only read: a body that calls nothing but \<open>get\<close>, given the value
  that \<open>get\<close> returns while it runs; the exception it ends with, if any; and the fuel
  it needs. \<open>outcome\<close> is what such subscribers are in the first model (during a
  notification \<open>get\<close> returns \<open>newValue\<close>), and \<open>emit_cost\<close> is the fuel that the
  loop of \<open>emit\<close> needs over them.
\<close>

primrec reads_only :: "'v val \<Rightarrow> ('v, 'e) prog \<Rightarrow> bool" where
  "reads_only c Return = True"
| "reads_only c (Throw e) = True"
| "reads_only c (Call_get k) = reads_only c (k c)"
| "reads_only c (Call_set g immediate k) = False"
| "reads_only c (Call_clear p) = False"
| "reads_only c (Call_subscribe s p) = False"
| "reads_only c (Call_unsubscribe s p) = False"

primrec thrown_by :: "'v val \<Rightarrow> ('v, 'e) prog \<Rightarrow> 'e option" where
  "thrown_by c Return = None"
| "thrown_by c (Throw e) = Some e"
| "thrown_by c (Call_get k) = thrown_by c (k c)"
| "thrown_by c (Call_set g immediate k) = None"
| "thrown_by c (Call_clear p) = None"
| "thrown_by c (Call_subscribe s p) = None"
| "thrown_by c (Call_unsubscribe s p) = None"

primrec steps :: "'v val \<Rightarrow> ('v, 'e) prog \<Rightarrow> nat" where
  "steps c Return = 1"
| "steps c (Throw e) = 1"
| "steps c (Call_get k) = Suc (steps c (k c))"
| "steps c (Call_set g immediate k) = 1"
| "steps c (Call_clear p) = 1"
| "steps c (Call_subscribe s p) = 1"
| "steps c (Call_unsubscribe s p) = 1"

definition outcome :: "('v, 'e) code \<Rightarrow> ('v, 'e) callbacks" where
  "outcome code s newValue oldValue = thrown_by newValue (code s newValue oldValue)"

fun emit_cost :: "('v, 'e) code \<Rightarrow> 'v val \<Rightarrow> 'v val \<Rightarrow> nat option list \<Rightarrow> nat" where
  "emit_cost code newValue oldValue [] = 1"
| "emit_cost code newValue oldValue (None # es) = Suc (emit_cost code newValue oldValue es)"
| "emit_cost code newValue oldValue (Some s # es) =
     Suc (max (steps newValue (code s newValue oldValue)) (emit_cost code newValue oldValue es))"

text \<open>
  The invariant \<open>consistent\<close> and the first model's cell, read off a cell of the second
  model.
\<close>

definition consistent_live :: "('v, 'e) live \<Rightarrow> bool" where
  "consistent_live w =
     (timers w = (if state_queued w then [debounce w] else []) \<and> distinct (members (entries w)))"

definition cell_of :: "('v, 'e) live \<Rightarrow> ('v, 'e) cell" where
  "cell_of w =
     \<lparr>current = state_current w, future = state_future w, queued = state_queued w,
      debounceId = debounce w, subscribers = members (entries w), pending = timers w,
      nextId = fresh w, console = errors w, calls = trace w\<rparr>"




subsection \<open>Concrete cells and callbacks\<close>

text \<open>
  Subscribers that all return, subscribers of which number 1 throws, and a setter that
  throws; a fresh cell holding 0, the same with subscribers 1 and 2, and the latter
  with the value 7 written non-immediately and not yet committed.
\<close>

definition quiet :: "(int, string) callbacks" where
  "quiet s newValue oldValue = None"

definition faulty :: "(int, string) callbacks" where
  "faulty s newValue oldValue = (if s = 1 then Some ''boom'' else None)"

definition boom :: "int val \<Rightarrow> string + int val" where
  "boom s = Inl ''boom''"

definition fresh_cell :: "(int, string) cell" where
  "fresh_cell = createObservable (Value (Val 0))"

definition watched_cell :: "(int, string) cell" where
  "watched_cell = snd (subscribe 2 (snd (subscribe 1 fresh_cell)))"

definition batch_cell :: "(int, string) cell" where
  "batch_cell = snd (set_obs quiet (Value (Val 7)) False watched_cell)"


definition later_ops :: "(int, string) op list" where
  "later_ops = [Op_tick, Op_set (Value (Val 9)) True]"

text \<open>
  Subscribers for the second model: all check that \<open>get()\<close> returns the value they
  are notified of; number 1 throws; number 1 writes 99 at once when it is notified of
  another value, and lets an exception of that write through; number 1 unsubscribes
  number 2. The cell holding 0 with subscribers 1 and 2, and the same with 7 written
  and not yet committed.
\<close>

definition reader :: "(int, string) code" where
  "reader s newValue oldValue = Call_get (\<lambda>v. if v = newValue then Return else Throw ''stale'')"




definition watched_live :: "(int, string) live" where
  "watched_live = snd (subscribe_live 2 (snd (subscribe_live 1 (createObservable_live (Value (Val 0))))))"

definition batch_live :: "(int, string) live" where
  "batch_live = watched_live\<lparr>state_future := Val 7, state_queued := True, timers := [1], fresh := 2, debounce := 1\<rparr>"

subsection \<open>A counter store\<close>

text \<open>
  Calling \<open>store.get()\<close> and \<open>store.name()\<close> on a store object (\<open>None\<close> when
  the member is not a function of that shape, or \<open>get\<close> throws). The store of the
  spec's example, \<open>createStore({count: 0}, obs => ({inc: () => obs.set(s => ({...s, count: s.count + 1}))}))\<close>;
  a factory whose action is called \<open>get\<close>, and a factory that throws.
\<close>

definition call_get :: "('v, 'e) object \<Rightarrow> ('v, 'e) cell \<Rightarrow> 'v val option" where
  "call_get obj w =
     (case obj ''get'' of
        Some (Get_method f) \<Rightarrow> Some (f w)
      | Some (Action f) \<Rightarrow> (case f w of (Inr v, w') \<Rightarrow> Some v | (Inl e, w') \<Rightarrow> None)
      | _ \<Rightarrow> None)"

definition call_action ::
  "('v, 'e) object \<Rightarrow> string \<Rightarrow> ('v, 'e) cell \<Rightarrow> (('e + 'v val) \<times> ('v, 'e) cell) option" where
  "call_action obj name w = (case obj name of Some (Action f) \<Rightarrow> Some (f w) | _ \<Rightarrow> None)"

record counter =
  count :: int

definition silent :: "(counter, string) callbacks" where
  "silent s newValue oldValue = None"

definition increment :: "counter val \<Rightarrow> string + counter val" where
  "increment s = (case s of Val c \<Rightarrow> Inr (Val (c\<lparr>count := count c + 1\<rparr>)) | Undefined \<Rightarrow> Inl ''TypeError'')"

definition inc :: "(counter, string) object \<Rightarrow> (counter, string) cell \<Rightarrow> (string + counter val) \<times> (counter, string) cell" where
  "inc obs w =
     (case obs ''set'' of
        Some (Set_method f) \<Rightarrow>
          (case f (Function increment) False w of
             (Inl e, w') \<Rightarrow> (Inl e, w')
           | (Inr u, w') \<Rightarrow> (Inr Undefined, w'))
      | _ \<Rightarrow> (Inl ''TypeError'', w))"

definition counter_actions ::
  "(counter, string) object \<Rightarrow> (counter, string) cell \<Rightarrow>
   (string + (counter, string) object) \<times> (counter, string) cell" where
  "counter_actions obs w = (Inr [''inc'' \<mapsto> Action (inc obs)], w)"

definition answer :: "(counter, string) cell \<Rightarrow> (string + counter val) \<times> (counter, string) cell" where
  "answer w = (Inr (Val \<lparr>count = 42\<rparr>), w)"

definition shadowing_actions ::
  "(counter, string) object \<Rightarrow> (counter, string) cell \<Rightarrow>
   (string + (counter, string) object) \<times> (counter, string) cell" where
  "shadowing_actions obs w = (Inr [''get'' \<mapsto> Action answer], w)"

definition throwing_actions ::
  "(counter, string) object \<Rightarrow> (counter, string) cell \<Rightarrow>
   (string + (counter, string) object) \<times> (counter, string) cell" where
  "throwing_actions obs w = (Inl ''boom'', w)"

definition counter_after_inc_and_flush :: "counter val option" where
  "counter_after_inc_and_flush =
     (case createStore silent (Value (Val \<lparr>count = 0\<rparr>)) counter_actions of
        (Inr store, w0) \<Rightarrow>
          (case call_action store ''inc'' w0 of
             Some (Inr u, w1) \<Rightarrow> call_get store (snd (tick silent w1))
           | _ \<Rightarrow> None)
      | (Inl e, w0) \<Rightarrow> None)"

definition counter_after_inc :: "counter val option" where
  "counter_after_inc =
     (case createStore silent (Value (Val \<lparr>count = 0\<rparr>)) counter_actions of
        (Inr store, w0) \<Rightarrow>
          (case call_action store ''inc'' w0 of
             Some (Inr u, w1) \<Rightarrow> call_get store w1
           | _ \<Rightarrow> None)
      | (Inl e, w0) \<Rightarrow> None)"

text \<open>
  The same with an immediate write of the setter \<open>s => s\<close> after \<open>inc()\<close>: the
  setter is applied to \<open>current\<close>, so the write puts the committed value back into
  \<open>future\<close> and the pending \<open>{count: 1}\<close> is lost.
\<close>

definition keep :: "counter val \<Rightarrow> string + counter val" where
  "keep s = Inr s"

definition counter_after_inc_and_identity_write :: "counter val option" where
  "counter_after_inc_and_identity_write =
     (case createStore silent (Value (Val \<lparr>count = 0\<rparr>)) counter_actions of
        (Inr store, w0) \<Rightarrow>
          (case call_action store ''inc'' w0 of
             Some (Inr u, w1) \<Rightarrow>
               (case store ''set'' of
                  Some (Set_method f) \<Rightarrow>
                    call_get store (snd (tick silent (snd (f (Function keep) True w1))))
                | _ \<Rightarrow> None)
           | _ \<Rightarrow> None)
      | (Inl e, w0) \<Rightarrow> None)"

section \<open>Facts about the operations\<close>

lemma notified_Nil: "notified cb [] nv ov = []"
  by (simp add: notified_def)

lemma notified_Cons:
  "notified cb (s # ss) nv ov = (case cb s nv ov of None \<Rightarrow> s # notified cb ss nv ov | Some e \<Rightarrow> [s])"
  by (simp add: notified_def Let_def split: option.splits)

lemma thrown_Nil: "thrown cb [] nv ov = None"
  by (simp add: thrown_def)

lemma thrown_Cons:
  "thrown cb (s # ss) nv ov = (case cb s nv ov of None \<Rightarrow> thrown cb ss nv ov | Some e \<Rightarrow> Some e)"
  by (simp add: thrown_def split: option.splits)



lemma notified_subset: "set (notified cb ss nv ov) \<subseteq> set ss"
  by (induction ss) (auto simp: notified_Nil notified_Cons split: option.splits)



lemma emit_loop_eq:
  "emit_loop cb ss nv ov w =
     ((case thrown cb ss nv ov of None \<Rightarrow> Inr () | Some e \<Rightarrow> Inl e),
      w\<lparr>calls := calls w @ map (\<lambda>s. (s, nv, ov)) (notified cb ss nv ov)\<rparr>)"
  by (induction ss arbitrary: w)
     (simp_all add: notified_Nil notified_Cons thrown_Nil thrown_Cons Let_def split: option.splits)

lemma trigger_eq:
  "trigger cb w =
     (if queued w \<and> current w \<noteq> future w then
        ((case thrown cb (subscribers w) (future w) (current w) of None \<Rightarrow> Inr () | Some e \<Rightarrow> Inl e),
         w\<lparr>queued := False, current := future w,
           calls := calls w @ map (\<lambda>s. (s, future w, current w))
                      (notified cb (subscribers w) (future w) (current w))\<rparr>)
      else (Inr (), w\<lparr>queued := False\<rparr>))"
  by (simp add: trigger_def emit_def emit_loop_eq Let_def)

lemma set_obs_immediate_eq:
  "set_obs cb g True w =
     (let v = fst (readValue g (current w));
          w1 = w\<lparr>future := v, console := console w @ snd (readValue g (current w)),
                 pending := removeAll (debounceId w) (pending w), queued := False\<rparr>
      in if current w \<noteq> v then
           ((case thrown cb (subscribers w) v (current w) of None \<Rightarrow> Inr () | Some e \<Rightarrow> Inl e),
            w1\<lparr>current := v,
               calls := calls w @ map (\<lambda>s. (s, v, current w)) (notified cb (subscribers w) v (current w))\<rparr>)
         else (Inr (), w1))"
  by (simp add: set_obs_def trigger_eq dequeue_def Let_def split: prod.splits)

lemma set_obs_deferred_eq:
  "set_obs cb g False w =
     (let v = fst (readValue g (current w));
          w1 = w\<lparr>future := v, console := console w @ snd (readValue g (current w))\<rparr>
      in if queued w then (Inr (), w1)
         else (Inr (), w1\<lparr>queued := True, pending := pending w @ [nextId w],
                          nextId := Suc (nextId w), debounceId := nextId w\<rparr>))"
  by (simp add: set_obs_def enqueue_def Let_def split: prod.splits)


lemma fresh_cell_eq:
  "fresh_cell = \<lparr>current = Val 0, future = Val 0, queued = False, debounceId = 0,
     subscribers = [], pending = [], nextId = 1, console = [], calls = []\<rparr>"
  by (simp add: fresh_cell_def createObservable_def readValue_def)

lemma watched_cell_eq:
  "watched_cell = \<lparr>current = Val 0, future = Val 0, queued = False, debounceId = 0,
     subscribers = [1, 2], pending = [], nextId = 1, console = [], calls = []\<rparr>"
  by (simp add: watched_cell_def fresh_cell_eq subscribe_def)

lemma batch_cell_eq:
  "batch_cell = \<lparr>current = Val 0, future = Val 7, queued = True, debounceId = 1,
     subscribers = [1, 2], pending = [1], nextId = 2, console = [], calls = []\<rparr>"
  by (simp add: batch_cell_def watched_cell_eq set_obs_def readValue_def enqueue_def)

lemma tick_eq:
  "tick cb w = (case pending w of [] \<Rightarrow> (Inr (), w) | i # rest \<Rightarrow> trigger cb (w\<lparr>pending := rest\<rparr>))"
  by (simp add: tick_def)

lemma consistent_createObservable: "consistent (createObservable init)"
  by (simp add: consistent_def createObservable_def split: prod.splits)

lemma consistent_set_obs: "consistent w \<Longrightarrow> consistent (snd (set_obs cb g immediate w))"
  by (cases immediate)
     (auto simp: set_obs_immediate_eq set_obs_deferred_eq consistent_def Let_def split: if_splits)

lemma consistent_tick: "consistent w \<Longrightarrow> consistent (snd (tick cb w))"
  by (auto simp: tick_eq trigger_eq consistent_def split: list.splits if_splits)

lemma consistent_frame:
  "consistent w \<Longrightarrow> consistent (clear w) \<and> consistent (unsubscribe s w) \<and> consistent (snd (subscribe s w))"
  by (simp add: consistent_def clear_def unsubscribe_def subscribe_def distinct_removeAll)

lemma consistent_exec: "consistent w \<Longrightarrow> consistent (exec cb op w)"
  by (cases op) (simp_all add: consistent_set_obs consistent_tick consistent_frame)

lemma consistent_run: "consistent w \<Longrightarrow> consistent (run cb ops w)"
  unfolding run_def by (induction ops arbitrary: w) (simp_all add: consistent_exec)

lemma no_divergence_trigger: "no_divergence w \<Longrightarrow> no_divergence (snd (trigger cb w))"
  by (auto simp: trigger_eq no_divergence_def)

lemma no_divergence_set_obs: "no_divergence (snd (set_obs cb g immediate w))"
  by (cases immediate) (auto simp: set_obs_immediate_eq set_obs_deferred_eq no_divergence_def Let_def)

lemma no_divergence_tick: "no_divergence w \<Longrightarrow> no_divergence (snd (tick cb w))"
  by (cases "pending w") (auto simp: tick_def trigger_eq no_divergence_def)

lemma no_divergence_frame:
  "no_divergence w \<Longrightarrow> no_divergence (clear w) \<and> no_divergence (snd (subscribe s w))
      \<and> no_divergence (unsubscribe s w) \<and> no_divergence (fst (subscribe s w0) w)"
  by (simp add: no_divergence_def clear_def subscribe_def unsubscribe_def)

lemma no_divergence_exec: "no_divergence w \<Longrightarrow> no_divergence (exec cb op w)"
  by (cases op) (simp_all add: no_divergence_set_obs no_divergence_tick no_divergence_frame)

lemma no_divergence_run: "no_divergence w \<Longrightarrow> no_divergence (run cb ops w)"
  unfolding run_def by (induction ops arbitrary: w) (simp_all add: no_divergence_exec)

lemma filter_notified:
  "s \<notin> set ss \<Longrightarrow> filter (\<lambda>c. fst c = s) (map (\<lambda>x. (x, nv, ov)) (notified cb ss nv ov)) = []"
  using notified_subset [of cb ss nv ov] by (auto simp: filter_empty_conv)

lemma exec_not_subscribed:
  "s \<notin> set (subscribers w) \<Longrightarrow> op \<noteq> Op_subscribe s \<Longrightarrow>
     s \<notin> set (subscribers (exec cb op w)) \<and> invocations s (exec cb op w) = invocations s w"
proof (cases op)
  case (Op_set g immediate)
  assume "s \<notin> set (subscribers w)"
  then show ?thesis
    unfolding Op_set
    by (cases immediate)
       (simp_all add: set_obs_immediate_eq set_obs_deferred_eq invocations_def Let_def filter_notified)
next
  case Op_tick
  assume "s \<notin> set (subscribers w)"
  then show ?thesis
    unfolding Op_tick
    by (cases "pending w") (simp_all add: tick_eq trigger_eq invocations_def filter_notified)
next
  case (Op_subscribe x)
  assume "s \<notin> set (subscribers w)" "op \<noteq> Op_subscribe s"
  then show ?thesis
    unfolding Op_subscribe by (simp add: subscribe_def invocations_def)
qed (simp_all add: invocations_def clear_def unsubscribe_def)

lemma run_not_subscribed:
  "s \<notin> set (subscribers w) \<Longrightarrow> Op_subscribe s \<notin> set ops \<Longrightarrow>
     invocations s (run cb ops w) = invocations s w"
proof (induction ops arbitrary: w)
  case Nil
  then show ?case by (simp add: run_def)
next
  case (Cons op ops)
  from Cons.prems have "op \<noteq> Op_subscribe s" and rest: "Op_subscribe s \<notin> set ops"
    by auto
  with Cons.prems(1) have step: "s \<notin> set (subscribers (exec cb op w))"
      "invocations s (exec cb op w) = invocations s w"
    using exec_not_subscribed [of s w op cb] by simp_all
  have "run cb (op # ops) w = run cb ops (exec cb op w)"
    by (simp add: run_def)
  with Cons.IH [OF step(1) rest] step(2) show ?case
    by simp
qed

lemma value_part_exec:
  "value_part w1 = value_part w2 \<Longrightarrow> value_part (exec cb1 op w1) = value_part (exec cb2 op w2)"
proof (cases op)
  case (Op_set g immediate)
  assume "value_part w1 = value_part w2"
  then show ?thesis
    unfolding Op_set
    by (cases immediate)
       (simp_all add: set_obs_immediate_eq set_obs_deferred_eq value_part_def Let_def)
next
  case Op_tick
  assume "value_part w1 = value_part w2"
  then show ?thesis
    unfolding Op_tick
    by (cases "pending w2") (auto simp: tick_eq trigger_eq value_part_def)
qed (simp_all add: value_part_def clear_def unsubscribe_def subscribe_def)

lemma value_part_run:
  "value_part w1 = value_part w2 \<Longrightarrow> value_part (run cb1 ops w1) = value_part (run cb2 ops w2)"
proof (induction ops arbitrary: w1 w2)
  case Nil
  then show ?case by (simp add: run_def)
next
  case (Cons op ops)
  have "value_part (exec cb1 op w1) = value_part (exec cb2 op w2)"
    using Cons.prems by (rule value_part_exec)
  then have "value_part (run cb1 ops (exec cb1 op w1)) = value_part (run cb2 ops (exec cb2 op w2))"
    by (rule Cons.IH)
  then show ?case by (simp add: run_def)
qed

lemma reachable_consistent: "consistent (run cb ops (createObservable init))"
  by (rule consistent_run) (rule consistent_createObservable)

lemma observable_members:
  "observable cb ''get'' = Some (Get_method get)"
  "observable cb ''set'' = Some (Set_method (set_obs cb))"
  "observable cb ''clear'' = Some (Clear_method clear)"
  "observable cb ''subscribe'' = Some (Subscribe_method subscribe)"
  "observable cb ''unsubscribe'' = Some (Unsubscribe_method unsubscribe)"
  by (simp_all add: observable_def)

lemma dom_observable:
  "dom (observable cb) = {''get'', ''set'', ''clear'', ''subscribe'', ''unsubscribe''}"
  by (auto simp: observable_def)

lemma counter_cell_eq:
  "createObservable (Value (Val \<lparr>count = 0\<rparr>)) =
     \<lparr>current = Val \<lparr>count = 0\<rparr>, future = Val \<lparr>count = 0\<rparr>, queued = False, debounceId = 0,
      subscribers = [], pending = [], nextId = 1, console = [], calls = []\<rparr>"
  by (simp add: createObservable_def readValue_def)

lemma counter_after_inc_and_flush_eq: "counter_after_inc_and_flush = Some (Val \<lparr>count = 1\<rparr>)"
  by (simp add: counter_after_inc_and_flush_def createStore_def counter_actions_def call_action_def
      call_get_def inc_def observable_members map_add_def counter_cell_eq set_obs_deferred_eq
      readValue_def increment_def tick_eq trigger_eq notified_Nil thrown_Nil get_def Let_def)

lemma counter_after_inc_eq: "counter_after_inc = Some (Val \<lparr>count = 0\<rparr>)"
  by (simp add: counter_after_inc_def createStore_def counter_actions_def call_action_def
      call_get_def inc_def observable_members map_add_def counter_cell_eq set_obs_deferred_eq
      readValue_def increment_def get_def Let_def)

lemma counter_after_inc_and_identity_write_eq:
  "counter_after_inc_and_identity_write = Some (Val \<lparr>count = 0\<rparr>)"
  by (simp add: counter_after_inc_and_identity_write_def createStore_def counter_actions_def
      call_action_def call_get_def inc_def observable_members map_add_def counter_cell_eq
      set_obs_deferred_eq set_obs_immediate_eq readValue_def increment_def keep_def tick_eq
      trigger_eq get_def Let_def)

subsection \<open>Subscribers that call back into the cell\<close>

lemma members_simps:
  "members [] = []" "members (None # es) = members es" "members (Some s # es) = s # members es"
  by (simp_all add: members_def)

lemma members_append: "members (es @ fs) = members es @ members fs"
proof (induction es)
  case Nil
  show ?case by (simp add: members_simps)
next
  case (Cons e es)
  then show ?case by (cases e) (simp_all add: members_simps)
qed

lemma members_delete: "members (map (\<lambda>e. if e = Some s then None else e) es) = removeAll s (members es)"
proof (induction es)
  case Nil
  show ?case by (simp add: members_simps)
next
  case (Cons e es)
  then show ?case by (cases e) (auto simp: members_simps)
qed

lemma members_clear: "members (map (\<lambda>e. None) es) = []"
  by (induction es) (simp_all add: members_simps)

lemma members_mem: "Some s \<in> set es \<longleftrightarrow> s \<in> set (members es)"
proof (induction es)
  case Nil
  show ?case by (simp add: members_simps)
next
  case (Cons e es)
  then show ?case by (cases e) (auto simp: members_simps)
qed

lemma run_prog_reads_only:
  "reads_only (state_current w) p \<Longrightarrow> steps (state_current w) p \<le> n \<Longrightarrow>
     run_prog code n p w =
       Some ((case thrown_by (state_current w) p of None \<Rightarrow> Inr () | Some e \<Rightarrow> Inl e), w)"
proof (induction p arbitrary: n)
  case Return
  then show ?case by (cases n) simp_all
next
  case (Throw e)
  then show ?case by (cases n) simp_all
next
  case (Call_get k)
  from Call_get.prems obtain m where n: "n = Suc m" and m: "steps (state_current w) (k (state_current w)) \<le> m"
    by (cases n) simp_all
  from Call_get.prems have "reads_only (state_current w) (k (state_current w))"
    by simp
  from Call_get.IH [OF _ this m] show ?case
    by (simp add: n get_live_def)
qed simp_all

lemma emit_cost_pos: "0 < emit_cost code nv ov es"
  by (induction code nv ov es rule: emit_cost.induct) simp_all

lemma emit_from_reads_only:
  "state_current w = nv \<Longrightarrow>
   list_all (\<lambda>s. reads_only nv (code s nv ov)) (members (drop i (entries w))) \<Longrightarrow>
   emit_cost code nv ov (drop i (entries w)) \<le> m \<Longrightarrow>
     emit_from code m i nv ov w =
       Some ((case thrown (outcome code) (members (drop i (entries w))) nv ov of
                None \<Rightarrow> Inr () | Some e \<Rightarrow> Inl e),
             w\<lparr>trace := trace w @ map (\<lambda>s. (s, nv, ov))
                          (notified (outcome code) (members (drop i (entries w))) nv ov)\<rparr>)"
proof (induction m arbitrary: i w)
  case 0
  then show ?case
    using emit_cost_pos [of code nv ov "drop i (entries w)"] by simp
next
  case (Suc m)
  show ?case
  proof (cases "i < length (entries w)")
    case False
    then show ?thesis
      by (simp add: members_simps notified_Nil thrown_Nil)
  next
    case True
    then have d: "drop i (entries w) = entries w ! i # drop (Suc i) (entries w)"
      by (simp add: Cons_nth_drop_Suc)
    show ?thesis
    proof (cases "entries w ! i")
      case None
      with Suc.prems d have "list_all (\<lambda>s. reads_only nv (code s nv ov)) (members (drop (Suc i) (entries w)))"
        and "emit_cost code nv ov (drop (Suc i) (entries w)) \<le> m"
        by (simp_all add: members_simps)
      from Suc.IH [OF Suc.prems(1) this] True None d show ?thesis
        by (simp add: members_simps)
    next
      case (Some s)
      let ?w1 = "w\<lparr>trace := trace w @ [(s, nv, ov)]\<rparr>"
      from Suc.prems d Some have ro: "reads_only nv (code s nv ov)"
        and rest: "list_all (\<lambda>s. reads_only nv (code s nv ov)) (members (drop (Suc i) (entries ?w1)))"
        and st: "steps nv (code s nv ov) \<le> m"
        and cost: "emit_cost code nv ov (drop (Suc i) (entries ?w1)) \<le> m"
        by (simp_all add: members_simps)
      have cur: "state_current ?w1 = nv"
        using Suc.prems(1) by simp
      have run: "run_prog code m (code s nv ov) ?w1 =
          Some ((case outcome code s nv ov of None \<Rightarrow> Inr () | Some e \<Rightarrow> Inl e), ?w1)"
        using run_prog_reads_only [of ?w1 "code s nv ov" m code] ro st cur
        by (simp add: outcome_def)
      show ?thesis
      proof (cases "outcome code s nv ov")
        case None
        with Suc.IH [OF cur rest cost] run True Some d show ?thesis
          by (simp add: members_simps notified_Cons thrown_Cons)
      next
        case (Some e)
        with run True \<open>entries w ! i = Some s\<close> d show ?thesis
          by (simp add: members_simps notified_Cons thrown_Cons)
      qed
    qed
  qed
qed

lemma trigger_live_closed: "0 < n \<Longrightarrow> \<not> state_queued w \<Longrightarrow> trigger_live code n w = Some (Inr (), w)"
  by (cases n) simp_all

lemma trigger_live_noop:
  "0 < n \<Longrightarrow> state_queued w \<Longrightarrow> state_current w = state_future w \<Longrightarrow>
     trigger_live code n w = Some (Inr (), w\<lparr>state_queued := False\<rparr>)"
  by (cases n) simp_all

lemma trigger_live_reads_only:
  assumes "state_queued w" and "state_current w \<noteq> state_future w"
    and "list_all (\<lambda>s. reads_only (state_future w) (code s (state_future w) (state_current w)))
           (members (entries w))"
    and "emit_cost code (state_future w) (state_current w) (entries w) < n"
  shows "trigger_live code n w =
       Some ((case thrown (outcome code) (members (entries w)) (state_future w) (state_current w) of
                None \<Rightarrow> Inr () | Some e \<Rightarrow> Inl e),
             w\<lparr>state_queued := False, state_current := state_future w,
               trace := trace w @ map (\<lambda>s. (s, state_future w, state_current w))
                          (notified (outcome code) (members (entries w)) (state_future w) (state_current w))\<rparr>)"
proof -
  from assms(4) obtain m where n: "n = Suc m"
    and m: "emit_cost code (state_future w) (state_current w) (entries w) \<le> m"
    by (cases n) simp_all
  let ?w2 = "w\<lparr>state_queued := False, state_current := state_future w\<rparr>"
  have "emit_from code m 0 (state_future w) (state_current w) ?w2 =
      Some ((case thrown (outcome code) (members (drop 0 (entries ?w2))) (state_future w) (state_current w) of
                None \<Rightarrow> Inr () | Some e \<Rightarrow> Inl e),
            ?w2\<lparr>trace := trace ?w2 @ map (\<lambda>s. (s, state_future w, state_current w))
                  (notified (outcome code) (members (drop 0 (entries ?w2))) (state_future w) (state_current w))\<rparr>)"
    by (rule emit_from_reads_only) (use assms(3) m in simp_all)
  with assms(1,2) show ?thesis
    by (simp add: n Let_def)
qed

lemma set_live_deferred:
  "0 < n \<Longrightarrow>
     set_live code n g False w =
       Some (Inr (),
         (let v = fst (readValue g (state_current w));
              w1 = w\<lparr>state_future := v, errors := errors w @ snd (readValue g (state_current w))\<rparr>
          in if state_queued w then w1
             else w1\<lparr>state_queued := True, timers := timers w @ [fresh w],
                      fresh := Suc (fresh w), debounce := fresh w\<rparr>))"
  by (cases n) (simp_all add: enqueue_live_def Let_def split: prod.splits)

lemma set_live_immediate:
  "set_live code (Suc n) g True w =
     trigger_live code n
       (w\<lparr>state_future := fst (readValue g (state_current w)),
          errors := errors w @ snd (readValue g (state_current w)),
          timers := removeAll (debounce w) (timers w), state_queued := True\<rparr>)"
  by (simp add: dequeue_live_def Let_def split: prod.splits)



lemma cell_of_createObservable: "cell_of (createObservable_live init) = createObservable init"
  by (simp add: cell_of_def createObservable_live_def createObservable_def members_simps
      split: prod.splits)

lemma cell_of_frame:
  "cell_of (clear_live w) = clear (cell_of w)"
  "cell_of (unsubscribe_live s w) = unsubscribe s (cell_of w)"
  "cell_of (snd (subscribe_live s w)) = snd (subscribe s (cell_of w))"
  "cell_of (fst (subscribe_live s w0) w) = fst (subscribe s w1) (cell_of w)"
  "get_live w = get (cell_of w)"
  by (simp_all add: cell_of_def clear_live_def clear_def unsubscribe_live_def unsubscribe_def
      subscribe_live_def subscribe_def get_live_def get_def members_clear members_delete
      members_mem members_append members_simps)

lemma trigger_live_agrees:
  assumes ro: "\<And>s nv ov. reads_only nv (code s nv ov)"
    and n: "emit_cost code (state_future w) (state_current w) (entries w) < n"
  shows "map_option (apsnd cell_of) (trigger_live code n w) = Some (trigger (outcome code) (cell_of w))"
proof -
  from n have pos: "0 < n" by simp
  consider "\<not> state_queued w" | "state_queued w" "state_current w = state_future w"
    | "state_queued w" "state_current w \<noteq> state_future w"
    by blast
  then show ?thesis
  proof cases
    case 1
    then show ?thesis
      by (simp add: trigger_live_closed [OF pos] trigger_def cell_of_def)
  next
    case 2
    then show ?thesis
      by (simp add: trigger_live_noop [OF pos] trigger_eq cell_of_def)
  next
    case 3
    have "list_all (\<lambda>s. reads_only (state_future w) (code s (state_future w) (state_current w)))
           (members (entries w))"
      by (simp add: ro list_all_iff)
    from trigger_live_reads_only [OF 3 this n] 3 show ?thesis
      by (simp add: trigger_eq cell_of_def)
  qed
qed

lemma tick_live_agrees:
  assumes ro: "\<And>s nv ov. reads_only nv (code s nv ov)"
  shows "\<exists>N. \<forall>n\<ge>N. map_option (apsnd cell_of) (tick_live code n w) = Some (tick (outcome code) (cell_of w))"
proof (intro exI allI impI)
  fix n
  assume n: "Suc (emit_cost code (state_future w) (state_current w) (entries w)) \<le> n"
  show "map_option (apsnd cell_of) (tick_live code n w) = Some (tick (outcome code) (cell_of w))"
  proof (cases "timers w")
    case Nil
    then show ?thesis
      by (simp add: tick_live_def tick_def cell_of_def)
  next
    case (Cons i rest)
    have "map_option (apsnd cell_of) (trigger_live code n (w\<lparr>timers := rest\<rparr>))
        = Some (trigger (outcome code) (cell_of (w\<lparr>timers := rest\<rparr>)))"
      by (rule trigger_live_agrees [OF ro]) (use n in simp)
    moreover have "cell_of (w\<lparr>timers := rest\<rparr>) = (cell_of w)\<lparr>pending := rest\<rparr>"
      by (simp add: cell_of_def)
    ultimately show ?thesis
      using Cons by (simp add: tick_live_def tick_def cell_of_def)
  qed
qed

lemma set_live_agrees:
  assumes ro: "\<And>s nv ov. reads_only nv (code s nv ov)"
  shows "\<exists>N. \<forall>n\<ge>N. map_option (apsnd cell_of) (set_live code n g immediate w)
           = Some (set_obs (outcome code) g immediate (cell_of w))"
proof (intro exI allI impI)
  fix n
  let ?v = "fst (readValue g (state_current w))"
  assume n: "Suc (Suc (emit_cost code ?v (state_current w) (entries w))) \<le> n"
  then obtain m where m: "n = Suc m" and cost: "emit_cost code ?v (state_current w) (entries w) < m"
    by (cases n) auto
  show "map_option (apsnd cell_of) (set_live code n g immediate w)
           = Some (set_obs (outcome code) g immediate (cell_of w))"
  proof (cases immediate)
    case False
    from n have "0 < n" by simp
    from set_live_deferred [OF this, of code g w] False show ?thesis
      by (simp add: set_obs_deferred_eq cell_of_def Let_def)
  next
    case True
    let ?w0 = "w\<lparr>state_future := ?v, errors := errors w @ snd (readValue g (state_current w)),
          timers := removeAll (debounce w) (timers w), state_queued := True\<rparr>"
    have "map_option (apsnd cell_of) (trigger_live code m ?w0)
        = Some (trigger (outcome code) (cell_of ?w0))"
      by (rule trigger_live_agrees [OF ro]) (use cost in simp)
    moreover have "set_obs (outcome code) g True (cell_of w) = trigger (outcome code) (cell_of ?w0)"
      by (simp add: set_obs_def dequeue_def cell_of_def split: prod.splits)
    moreover have "set_live code n g True w = trigger_live code m ?w0"
      unfolding m by (rule set_live_immediate)
    ultimately show ?thesis
      using True by simp
  qed
qed

lemma consistent_live_frame:
  "consistent_live w \<Longrightarrow>
     consistent_live (clear_live w) \<and> consistent_live (unsubscribe_live s w)
     \<and> consistent_live (snd (subscribe_live s w))"
  by (simp add: consistent_live_def clear_live_def unsubscribe_live_def subscribe_live_def
      members_clear members_delete members_mem members_append members_simps distinct_removeAll)

lemma consistent_live_createObservable: "consistent_live (createObservable_live init)"
  by (simp add: consistent_live_def createObservable_live_def members_simps split: prod.splits)

lemma consistent_live_trace: "consistent_live (w\<lparr>trace := t\<rparr>) = consistent_live w"
  by (simp add: consistent_live_def)

lemma consistent_live_steps:
  "(\<forall>p w r w'. consistent_live w \<longrightarrow> run_prog code n p w = Some (r, w') \<longrightarrow> consistent_live w')
   \<and> (\<forall>i nv ov w r w'. consistent_live w \<longrightarrow> emit_from code n i nv ov w = Some (r, w') \<longrightarrow>
          consistent_live w')
   \<and> (\<forall>w r w'. timers w = [] \<longrightarrow> distinct (members (entries w)) \<longrightarrow>
          trigger_live code n w = Some (r, w') \<longrightarrow> consistent_live w')
   \<and> (\<forall>g immediate w r w'. consistent_live w \<longrightarrow> set_live code n g immediate w = Some (r, w') \<longrightarrow>
          consistent_live w')"
proof (induction n)
  case 0
  show ?case by simp
next
  case (Suc n)
  then have run: "\<And>p w r w'. consistent_live w \<Longrightarrow> run_prog code n p w = Some (r, w') \<Longrightarrow> consistent_live w'"
    and emit: "\<And>i nv ov w r w'. consistent_live w \<Longrightarrow> emit_from code n i nv ov w = Some (r, w') \<Longrightarrow>
          consistent_live w'"
    and trig: "\<And>w r w'. timers w = [] \<Longrightarrow> distinct (members (entries w)) \<Longrightarrow>
          trigger_live code n w = Some (r, w') \<Longrightarrow> consistent_live w'"
    and set: "\<And>g immediate w r w'. consistent_live w \<Longrightarrow> set_live code n g immediate w = Some (r, w') \<Longrightarrow>
          consistent_live w'"
    by blast+
  have 1: "consistent_live w'" if "consistent_live w" "run_prog code (Suc n) p w = Some (r, w')"
    for p w r w'
  proof (cases p)
    case (Call_set g immediate k)
    with that(2) obtain r1 w1 where s: "set_live code n g immediate w = Some (r1, w1)"
      and k: "run_prog code n (k r1) w1 = Some (r, w')"
      by (auto split: option.splits)
    from set [OF that(1) s] have "consistent_live w1" .
    from run [OF this k] show ?thesis .
  next
    case Return
    with that show ?thesis by simp
  next
    case (Throw e)
    with that show ?thesis by simp
  next
    case (Call_get k)
    with that run show ?thesis by simp
  next
    case (Call_clear q)
    with that(2) have "run_prog code n q (clear_live w) = Some (r, w')"
      by simp
    with run consistent_live_frame [OF that(1)] show ?thesis
      by blast
  next
    case (Call_subscribe s q)
    with that(2) have "run_prog code n q (snd (subscribe_live s w)) = Some (r, w')"
      by simp
    with run consistent_live_frame [OF that(1)] show ?thesis
      by blast
  next
    case (Call_unsubscribe s q)
    with that(2) have "run_prog code n q (unsubscribe_live s w) = Some (r, w')"
      by simp
    with run consistent_live_frame [OF that(1)] show ?thesis
      by blast
  qed
  have 2: "consistent_live w'" if "consistent_live w" "emit_from code (Suc n) i nv ov w = Some (r, w')"
    for i nv ov w r w'
  proof (cases "i < length (entries w)")
    case False
    with that show ?thesis by simp
  next
    case True
    show ?thesis
    proof (cases "entries w ! i")
      case None
      with True that emit show ?thesis by simp
    next
      case (Some s)
      let ?w1 = "w\<lparr>trace := trace w @ [(s, nv, ov)]\<rparr>"
      from that(2) True Some obtain r1 w1 where
        p: "run_prog code n (code s nv ov) ?w1 = Some (r1, w1)"
        and rest: "case r1 of Inl e \<Rightarrow> (r, w') = (Inl e, w1)
                   | Inr u \<Rightarrow> emit_from code n (Suc i) nv ov w1 = Some (r, w')"
        by (auto split: option.splits sum.splits)
      from that(1) have "consistent_live ?w1"
        by (simp add: consistent_live_trace)
      from run [OF this p] have c: "consistent_live w1" .
      from rest c emit show ?thesis
        by (cases r1) auto
    qed
  qed
  have 3: "consistent_live w'"
    if "timers w = []" "distinct (members (entries w))" "trigger_live code (Suc n) w = Some (r, w')"
    for w r w'
  proof -
    have c: "consistent_live (w\<lparr>state_queued := False\<rparr>)"
      "consistent_live (w\<lparr>state_queued := False, state_current := state_future w\<rparr>)"
      using that(1,2) by (simp_all add: consistent_live_def)
    have c0: "\<not> state_queued w \<Longrightarrow> consistent_live w"
      using that(1,2) by (simp add: consistent_live_def)
    from that(3) c c0 emit show ?thesis
      by (auto simp: Let_def split: if_splits)
  qed
  have 4: "consistent_live w'"
    if "consistent_live w" "set_live code (Suc n) g immediate w = Some (r, w')"
    for g immediate w r w'
  proof (cases immediate)
    case True
    let ?w0 = "w\<lparr>state_future := fst (readValue g (state_current w)),
          errors := errors w @ snd (readValue g (state_current w)),
          timers := removeAll (debounce w) (timers w), state_queued := True\<rparr>"
    from that(2) True have t: "trigger_live code n ?w0 = Some (r, w')"
      by (simp only: set_live_immediate)
    from that(1) have "timers ?w0 = []" "distinct (members (entries ?w0))"
      by (auto simp: consistent_live_def)
    from trig [OF this t] show ?thesis .
  next
    case False
    with that show ?thesis
      by (auto simp: consistent_live_def enqueue_live_def Let_def split: prod.splits if_splits)
  qed
  from 1 2 3 4 show ?case
    by blast
qed

lemma consistent_live_set:
  "consistent_live w \<Longrightarrow> set_live code n g immediate w = Some (r, w') \<Longrightarrow> consistent_live w'"
  using consistent_live_steps [of code n] by blast

lemma consistent_live_tick:
  "consistent_live w \<Longrightarrow> tick_live code n w = Some (r, w') \<Longrightarrow> consistent_live w'"
proof (cases "timers w")
  case Nil
  assume "consistent_live w" "tick_live code n w = Some (r, w')"
  with Nil show ?thesis by (simp add: tick_live_def)
next
  case (Cons i rest)
  assume c: "consistent_live w" and t: "tick_live code n w = Some (r, w')"
  from c Cons have "timers (w\<lparr>timers := rest\<rparr>) = []" "distinct (members (entries (w\<lparr>timers := rest\<rparr>)))"
    by (auto simp: consistent_live_def split: if_splits)
  moreover from t Cons have "trigger_live code n (w\<lparr>timers := rest\<rparr>) = Some (r, w')"
    by (simp add: tick_live_def)
  ultimately show ?thesis
    using consistent_live_steps [of code n] by blast
qed

lemma watched_live_eq:
  "watched_live = \<lparr>state_current = Val 0, state_future = Val 0, state_queued = False, debounce = 0,
     entries = [Some 1, Some 2], timers = [], fresh = 1, errors = [], trace = []\<rparr>"
  by (simp add: watched_live_def createObservable_live_def subscribe_live_def readValue_def)

lemma batch_live_reached: "set_live reader 1 (Value (Val 7)) False watched_live = Some (Inr (), batch_live)"
  by (simp add: batch_live_def watched_live_eq readValue_def enqueue_live_def)



section \<open>The claims\<close>







text \<open>
  Claim C3. The invariant "\<open>queued\<close> is false implies \<open>current\<close> equals \<open>future\<close>"
  holds for the freshly created cell and is preserved by every operation: \<open>set\<close>
  (immediate or not, also when the resolver throws or a subscriber throws, since the
  state is the one left behind in either case), \<open>trigger\<close> and the scheduled callback
  that runs it, \<open>clear\<close>, \<open>subscribe\<close>, \<open>unsubscribe\<close>, the closure returned by
  \<open>subscribe\<close>, and so every step of a client, \<open>get\<close> among them, which returns
  \<open>current\<close> and leaves the cell as it is. Hence it holds in every state that a client
  reaches from a fresh cell.
\<close>

theorem invariant_no_divergence:
  "no_divergence (createObservable init)
   \<and> (no_divergence w \<longrightarrow> no_divergence (snd (set_obs cb g immediate w)))
   \<and> (no_divergence w \<longrightarrow> no_divergence (snd (trigger cb w)))
   \<and> (no_divergence w \<longrightarrow> no_divergence (snd (tick cb w)))
   \<and> (no_divergence w \<longrightarrow> no_divergence (clear w))
   \<and> (no_divergence w \<longrightarrow> no_divergence (snd (subscribe s w)))
   \<and> (no_divergence w \<longrightarrow> no_divergence (unsubscribe s w))
   \<and> (no_divergence w \<longrightarrow> no_divergence (fst (subscribe s w0) w))
   \<and> (no_divergence w \<longrightarrow> no_divergence (exec cb op w))
   \<and> no_divergence (run cb ops (createObservable init))"
proof -
  have init: "no_divergence (createObservable init)"
    by (simp add: createObservable_def no_divergence_def split: prod.splits)
  from init have reach: "no_divergence (run cb ops (createObservable init))"
    by (rule no_divergence_run)
  show ?thesis
    using init reach no_divergence_frame [of w s w0] no_divergence_set_obs [of cb g immediate w]
      no_divergence_trigger [of w cb] no_divergence_tick [of w cb] no_divergence_exec [of w cb op]
    by simp
qed

theorem invariant_no_divergence_witness:
  "no_divergence batch_cell
   \<and> current batch_cell = Val 0 \<and> future batch_cell = Val 7 \<and> queued batch_cell
   \<and> no_divergence (snd (set_obs faulty (Function boom) True batch_cell))
   \<and> no_divergence (snd (trigger faulty batch_cell))
   \<and> no_divergence (snd (tick faulty batch_cell))
   \<and> fst (tick faulty batch_cell) = Inl ''boom''
   \<and> current (snd (tick faulty batch_cell)) = Val 7
   \<and> future (snd (tick faulty batch_cell)) = Val 7
   \<and> no_divergence (clear batch_cell)
   \<and> no_divergence (snd (subscribe 3 batch_cell))
   \<and> no_divergence (unsubscribe 1 batch_cell)
   \<and> no_divergence (exec faulty Op_get batch_cell)
   \<and> no_divergence (run faulty later_ops (createObservable (Function boom)))"
proof -
  have b: "no_divergence batch_cell"
    by (simp add: no_divergence_def batch_cell_eq)
  have st: "current batch_cell = Val 0 \<and> future batch_cell = Val 7 \<and> queued batch_cell"
    by (simp add: batch_cell_eq)
  have t: "fst (tick faulty batch_cell) = Inl ''boom''
      \<and> current (snd (tick faulty batch_cell)) = Val 7
      \<and> future (snd (tick faulty batch_cell)) = Val 7"
    by (simp add: batch_cell_eq tick_def trigger_def emit_def faulty_def Let_def)
  note i1 = invariant_no_divergence
      [of "Function boom" batch_cell faulty "Function boom" True 3 batch_cell Op_get later_ops]
  note i2 = invariant_no_divergence
      [of "Function boom" batch_cell faulty "Function boom" True 1 batch_cell Op_get later_ops]
  from i1 b have 1: "no_divergence (snd (set_obs faulty (Function boom) True batch_cell))
      \<and> no_divergence (snd (trigger faulty batch_cell))
      \<and> no_divergence (snd (tick faulty batch_cell))
      \<and> no_divergence (clear batch_cell)
      \<and> no_divergence (snd (subscribe 3 batch_cell))
      \<and> no_divergence (exec faulty Op_get batch_cell)
      \<and> no_divergence (run faulty later_ops (createObservable (Function boom)))"
    by simp
  from i2 b have 2: "no_divergence (unsubscribe 1 batch_cell)"
    by simp
  from b st t 1 2 show ?thesis
    by simp
qed

text \<open>
  Claim C4. When the committed value of a cell is \<open>x\<close>, \<open>set(x)\<close> followed by the
  commit invokes no subscriber, whether the commit runs inside an immediate \<open>set\<close> or
  in the scheduled callback; the value read stays \<open>x\<close>, and on a consistent cell the
  scheduled callback does close the batch.
\<close>

theorem noop_commit_notifies_nobody:
  "current w = x \<Longrightarrow>
     calls (snd (set_obs cb (Value x) True w)) = calls w
     \<and> get (snd (set_obs cb (Value x) True w)) = x
     \<and> calls (snd (tick cb (snd (set_obs cb (Value x) False w)))) = calls w
     \<and> get (snd (tick cb (snd (set_obs cb (Value x) False w)))) = x
     \<and> (consistent w \<longrightarrow> \<not> queued (snd (tick cb (snd (set_obs cb (Value x) False w)))))"
proof -
  assume x: "current w = x"
  have r: "\<And>st. readValue (Value x) st = (x, [])"
    by (simp add: readValue_def)
  have imm: "calls (snd (set_obs cb (Value x) True w)) = calls w
      \<and> get (snd (set_obs cb (Value x) True w)) = x"
    using x by (simp add: set_obs_immediate_eq r get_def Let_def)
  have deferred: "calls (snd (tick cb (snd (set_obs cb (Value x) False w)))) = calls w
      \<and> get (snd (tick cb (snd (set_obs cb (Value x) False w)))) = x"
    using x by (auto simp: set_obs_deferred_eq r tick_eq trigger_eq get_def Let_def split: list.splits)
  have q: "consistent w \<longrightarrow> \<not> queued (snd (tick cb (snd (set_obs cb (Value x) False w))))"
    using x by (auto simp: set_obs_deferred_eq r tick_eq trigger_eq consistent_def Let_def split: list.splits if_splits)
  from imm deferred q show ?thesis by simp
qed

theorem noop_commit_notifies_nobody_witness:
  "current watched_cell = Val 0
   \<and> consistent watched_cell
   \<and> subscribers watched_cell = [1, 2]
   \<and> calls (snd (set_obs faulty (Value (Val 0)) True watched_cell)) = []
   \<and> calls (snd (tick faulty (snd (set_obs faulty (Value (Val 0)) False watched_cell)))) = []
   \<and> get (snd (tick faulty (snd (set_obs faulty (Value (Val 0)) False watched_cell)))) = Val 0
   \<and> \<not> queued (snd (tick faulty (snd (set_obs faulty (Value (Val 0)) False watched_cell))))"
proof -
  have h: "current watched_cell = Val 0"
    by (simp add: watched_cell_eq)
  have c: "calls watched_cell = []" and s: "subscribers watched_cell = [1, 2]"
    by (simp_all add: watched_cell_eq)
  have k: "consistent watched_cell"
    by (simp add: consistent_def watched_cell_eq)
  from noop_commit_notifies_nobody [OF h, of faulty] h c s k show ?thesis
    by simp
qed

text \<open>
  Claim C5. When the setter function passed to \<open>set\<close> throws on \<open>current\<close>, \<open>set\<close>
  returns normally, one line is written to the console (the setter, the state, the
  error), \<open>future\<close> becomes \<open>current\<close>, no subscriber is invoked, the value
  committed by the next scheduled callback is the \<open>current\<close> of before the write, and
  the scheduling happens as for any write: an immediate write cancels the pending
  callback and closes the batch, a non-immediate one opens a batch and schedules the
  callback unless one is open already.
\<close>

theorem resolver_failure_is_contained:
  "f (current w) = Inl e \<Longrightarrow> w' = snd (set_obs cb (Function f) immediate w) \<Longrightarrow>
     fst (set_obs cb (Function f) immediate w) = Inr ()
     \<and> console w' = console w @ [Failed_to_read_value (Function f) (current w) e]
     \<and> future w' = current w
     \<and> current w' = current w
     \<and> calls w' = calls w
     \<and> current (snd (tick cb w')) = current w
     \<and> calls (snd (tick cb w')) = calls w
     \<and> (if immediate then \<not> queued w' \<and> pending w' = removeAll (debounceId w) (pending w)
         else queued w' \<and>
           (if queued w then pending w' = pending w \<and> debounceId w' = debounceId w
            else pending w' = pending w @ [nextId w] \<and> debounceId w' = nextId w))"
proof -
  assume f: "f (current w) = Inl e" and w': "w' = snd (set_obs cb (Function f) immediate w)"
  have r: "readValue (Function f) (current w) =
      (current w, [Failed_to_read_value (Function f) (current w) e])"
    using f by (simp add: readValue_def)
  show ?thesis
  proof (cases immediate)
    case True
    then show ?thesis
      using w' by (auto simp: set_obs_immediate_eq r tick_eq trigger_eq Let_def split: list.splits)
  next
    case False
    then show ?thesis
      using w' by (auto simp: set_obs_deferred_eq r tick_eq trigger_eq Let_def split: list.splits)
  qed
qed


theorem resolver_failure_is_contained_witness:
  "boom (current batch_cell) = Inl ''boom''
   \<and> fst (set_obs faulty (Function boom) True batch_cell) = Inr ()
   \<and> console (snd (set_obs faulty (Function boom) True batch_cell))
       = [Failed_to_read_value (Function boom) (Val 0) ''boom'']
   \<and> get (snd (set_obs faulty (Function boom) True batch_cell)) = Val 0
   \<and> future (snd (set_obs faulty (Function boom) True batch_cell)) = Val 0
   \<and> calls (snd (set_obs faulty (Function boom) True batch_cell)) = []
   \<and> pending (snd (set_obs faulty (Function boom) True batch_cell)) = []"
proof -
  have h: "boom (current batch_cell) = Inl ''boom''"
    by (simp add: boom_def)
  from resolver_failure_is_contained [of boom batch_cell "''boom''" _ faulty True, OF h refl] h
  show ?thesis
    by (simp add: batch_cell_eq get_def)
qed




text \<open>
  Claim C7. Once a subscriber has been removed, by \<open>unsubscribe\<close> or by the closure
  that \<open>subscribe\<close> returned (which is \<open>unsubscribe\<close> applied to it), nothing that
  follows invokes it, as long as it is not subscribed again: whatever calls and
  callback runs follow, on whatever cell (also one whose write was scheduled before the
  removal), its invocations remain those of before.
\<close>

theorem removed_subscriber_not_invoked:
  "Op_subscribe s \<notin> set ops \<Longrightarrow>
     fst (subscribe s w0) = unsubscribe s
     \<and> s \<notin> set (subscribers (unsubscribe s w))
     \<and> invocations s (unsubscribe s w) = invocations s w
     \<and> invocations s (run cb ops (unsubscribe s w)) = invocations s w
     \<and> invocations s (run cb ops (fst (subscribe s w0) w)) = invocations s w"
proof -
  assume ops: "Op_subscribe s \<notin> set ops"
  have clo: "fst (subscribe s w0) = unsubscribe s"
    by (simp add: subscribe_def)
  have out: "s \<notin> set (subscribers (unsubscribe s w))"
    by (simp add: unsubscribe_def)
  have same: "invocations s (unsubscribe s w) = invocations s w"
    by (simp add: invocations_def unsubscribe_def)
  from run_not_subscribed [OF out ops, of cb] same
  have "invocations s (run cb ops (unsubscribe s w)) = invocations s w"
    by simp
  with clo out same show ?thesis
    by simp
qed

theorem removed_subscriber_not_invoked_witness:
  "Op_subscribe 1 \<notin> set later_ops
   \<and> subscribers batch_cell = [1, 2]
   \<and> invocations 1 (run quiet later_ops (unsubscribe 1 batch_cell)) = []
   \<and> invocations 1 (run quiet later_ops (fst (subscribe 1 fresh_cell) batch_cell)) = []
   \<and> calls (run quiet later_ops (unsubscribe 1 batch_cell)) = [(2, Val 7, Val 0), (2, Val 9, Val 7)]"
proof -
  have h: "Op_subscribe 1 \<notin> set later_ops"
    by (simp add: later_ops_def)
  have i: "invocations 1 batch_cell = []" and s: "subscribers batch_cell = [1, 2]"
    by (simp_all add: invocations_def batch_cell_eq)
  have c: "calls (run quiet later_ops (unsubscribe 1 batch_cell)) = [(2, Val 7, Val 0), (2, Val 9, Val 7)]"
    by (simp add: later_ops_def run_def batch_cell_eq unsubscribe_def tick_def trigger_def emit_def
        quiet_def set_obs_def readValue_def dequeue_def Let_def)
  note inst = removed_subscriber_not_invoked [OF h, of fresh_cell batch_cell quiet]
  from inst i have a: "invocations 1 (run quiet later_ops (unsubscribe 1 batch_cell)) = []"
    by metis
  from inst i have b: "invocations 1 (run quiet later_ops (fst (subscribe 1 fresh_cell) batch_cell)) = []"
    by metis
  from h s a b c show ?thesis
    by blast
qed

text \<open>
  Claim C8. \<open>clear\<close> empties the subscriber set and changes nothing else. After it,
  a function is invoked again only if it is subscribed again; \<open>get\<close> and \<open>set\<close> go
  on as before, in that any client sees the same values, batches, handles and console
  lines with or without the \<open>clear\<close>; and a commit that was pending still updates
  \<open>current\<close> when the callback runs.
\<close>

theorem clear_drops_subscribers_only:
  "clear w = w\<lparr>subscribers := []\<rparr>
   \<and> get (clear w) = get w
   \<and> value_part (clear w) = value_part w
   \<and> calls (clear w) = calls w
   \<and> value_part (run cb ops (clear w)) = value_part (run cb ops w)
   \<and> (Op_subscribe s \<notin> set ops \<longrightarrow> invocations s (run cb ops (clear w)) = invocations s w)
   \<and> (consistent w \<longrightarrow> queued w \<longrightarrow> get (snd (tick cb (clear w))) = future w)"
proof -
  have vp: "value_part (clear w) = value_part w"
    by (simp add: value_part_def clear_def)
  have inv: "invocations s (clear w) = invocations s w"
    by (simp add: invocations_def clear_def)
  have out: "s \<notin> set (subscribers (clear w))"
    by (simp add: clear_def)
  have later: "Op_subscribe s \<notin> set ops \<longrightarrow> invocations s (run cb ops (clear w)) = invocations s w"
    using run_not_subscribed [OF out, of ops cb] inv by simp
  have commit: "consistent w \<longrightarrow> queued w \<longrightarrow> get (snd (tick cb (clear w))) = future w"
    by (auto simp: consistent_def tick_eq trigger_eq clear_def get_def)
  from vp later commit value_part_run [OF vp, of cb ops cb] show ?thesis
    by (simp add: clear_def get_def)
qed

theorem clear_drops_subscribers_only_witness:
  "clear batch_cell = batch_cell\<lparr>subscribers := []\<rparr>
   \<and> get (clear batch_cell) = Val 0
   \<and> Op_subscribe 1 \<notin> set later_ops
   \<and> consistent batch_cell \<and> queued batch_cell
   \<and> invocations 1 (run quiet later_ops (clear batch_cell)) = []
   \<and> get (snd (tick quiet (clear batch_cell))) = Val 7
   \<and> get (run quiet later_ops (clear batch_cell)) = Val 9"
proof -
  have h: "Op_subscribe 1 \<notin> set later_ops"
    by (simp add: later_ops_def)
  have c: "consistent batch_cell \<and> queued batch_cell"
    by (simp add: consistent_def batch_cell_eq)
  have i: "invocations 1 batch_cell = []"
    by (simp add: invocations_def batch_cell_eq)
  have g: "get (run quiet later_ops (clear batch_cell)) = Val 9"
    by (simp add: later_ops_def run_def batch_cell_eq clear_def tick_def trigger_def emit_def
        set_obs_def readValue_def dequeue_def get_def Let_def)
  have f: "future batch_cell = Val 7" and g0: "get batch_cell = Val 0"
    by (simp_all add: batch_cell_eq get_def)
  note inst = clear_drops_subscribers_only [of batch_cell quiet later_ops 1]
  from inst h i have a: "invocations 1 (run quiet later_ops (clear batch_cell)) = []"
    by metis
  from inst c f have b: "get (snd (tick quiet (clear batch_cell))) = Val 7"
    by metis
  from inst g0 have d: "clear batch_cell = batch_cell\<lparr>subscribers := []\<rparr> \<and> get (clear batch_cell) = Val 0"
    by metis
  from a b d h c g show ?thesis
    by blast
qed

text \<open>
  Claim C9 (as amended). \<open>createStore\<close> creates one cell and applies the factory
  once, to the observable of that cell. When the factory returns the object \<open>a\<close>, the
  store is the observable's five members overlaid with \<open>a\<close>: its names are the five
  names and those of \<open>a\<close>, every member of \<open>a\<close> is in it, and a member of the
  observable is in it unless \<open>a\<close> has a member of the same name. For the counter store
  of the spec, after \<open>inc()\<close> the value read is still \<open>{count: 0}\<close>, and once the
  scheduled commit has run \<open>get().count\<close> is 1: the action and \<open>get\<close> work on the
  same cell.
\<close>

theorem createStore_merges_observable_and_actions:
  "actions (observable cb) (createObservable store) = (Inr a, w) \<Longrightarrow>
     createStore cb store actions = (Inr (observable cb ++ a), w)
     \<and> dom (observable cb ++ a) = {''get'', ''set'', ''clear'', ''subscribe'', ''unsubscribe''} \<union> dom a
     \<and> (a name = Some m \<longrightarrow> (observable cb ++ a) name = Some m)
     \<and> (a name = None \<longrightarrow> (observable cb ++ a) name = observable cb name)
     \<and> observable cb ''get'' = Some (Get_method get)
     \<and> observable cb ''set'' = Some (Set_method (set_obs cb))
     \<and> observable cb ''clear'' = Some (Clear_method clear)
     \<and> observable cb ''subscribe'' = Some (Subscribe_method subscribe)
     \<and> observable cb ''unsubscribe'' = Some (Unsubscribe_method unsubscribe)
     \<and> counter_after_inc = Some (Val \<lparr>count = 0\<rparr>)
     \<and> counter_after_inc_and_flush = Some (Val \<lparr>count = 1\<rparr>)"
proof -
  assume a: "actions (observable cb) (createObservable store) = (Inr a, w)"
  then have r: "createStore cb store actions = (Inr (observable cb ++ a), w)"
    by (simp add: createStore_def)
  have d: "dom (observable cb ++ a) = {''get'', ''set'', ''clear'', ''subscribe'', ''unsubscribe''} \<union> dom a"
    by (simp add: dom_observable Un_commute)
  have m: "(a name = Some m \<longrightarrow> (observable cb ++ a) name = Some m)
      \<and> (a name = None \<longrightarrow> (observable cb ++ a) name = observable cb name)"
    by (simp add: map_add_def)
  from r d m show ?thesis
    by (simp add: observable_members counter_after_inc_eq counter_after_inc_and_flush_eq)
qed

theorem createStore_merges_observable_and_actions_witness:
  "counter_actions (observable silent) (createObservable (Value (Val \<lparr>count = 0\<rparr>)))
     = (Inr [''inc'' \<mapsto> Action (inc (observable silent))], createObservable (Value (Val \<lparr>count = 0\<rparr>)))
   \<and> createStore silent (Value (Val \<lparr>count = 0\<rparr>)) counter_actions
     = (Inr (observable silent ++ [''inc'' \<mapsto> Action (inc (observable silent))]),
        createObservable (Value (Val \<lparr>count = 0\<rparr>)))
   \<and> dom (observable silent ++ [''inc'' \<mapsto> Action (inc (observable silent))])
     = {''inc'', ''get'', ''set'', ''clear'', ''subscribe'', ''unsubscribe''}
   \<and> (observable silent ++ [''inc'' \<mapsto> Action (inc (observable silent))]) ''get'' = Some (Get_method get)"
proof -
  let ?a = "[''inc'' \<mapsto> Action (inc (observable silent))]"
  let ?w = "createObservable (Value (Val \<lparr>count = 0\<rparr>)) :: (counter, string) cell"
  have h: "counter_actions (observable silent) ?w = (Inr ?a, ?w)"
    by (simp add: counter_actions_def)
  have n: "?a ''get'' = None"
    by simp
  note inst = createStore_merges_observable_and_actions
      [of counter_actions silent "Value (Val \<lparr>count = 0\<rparr>)" ?a ?w "''get''" "Get_method get", OF h]
  note rest = inst [THEN conjunct2]
  note rest3 = rest [THEN conjunct2, THEN conjunct2]
  have 1: "createStore silent (Value (Val \<lparr>count = 0\<rparr>)) counter_actions
     = (Inr (observable silent ++ ?a), ?w)"
    by (rule inst [THEN conjunct1])
  have 2: "dom (observable silent ++ ?a)
      = {''inc'', ''get'', ''set'', ''clear'', ''subscribe'', ''unsubscribe''}"
    using rest [THEN conjunct1] by simp
  have 3: "(observable silent ++ ?a) ''get'' = Some (Get_method get)"
    using rest3 [THEN conjunct1] rest3 [THEN conjunct2, THEN conjunct1] n by simp
  show ?thesis
    by (intro conjI) (rule h 1 2 3)+
qed

text \<open>
  Claim C9 as stated fails in two ways. A factory whose result has a member named
  \<open>get\<close> replaces the observable's \<open>get\<close>: the store's \<open>get()\<close> answers 42 while
  the cell holds \<open>{count: 0}\<close>. And when the factory throws, \<open>createStore\<close> throws
  and returns no object.
\<close>

theorem createStore_action_replaces_observable_member:
  "createStore silent (Value (Val \<lparr>count = 0\<rparr>)) shadowing_actions
     = (Inr (observable silent ++ [''get'' \<mapsto> Action answer]),
        createObservable (Value (Val \<lparr>count = 0\<rparr>)))
   \<and> (observable silent ++ [''get'' \<mapsto> Action answer]) ''get'' = Some (Action answer)
   \<and> observable silent ''get'' = Some (Get_method get)
   \<and> call_get (observable silent ++ [''get'' \<mapsto> Action answer])
        (createObservable (Value (Val \<lparr>count = 0\<rparr>))) = Some (Val \<lparr>count = 42\<rparr>)
   \<and> get (createObservable (Value (Val \<lparr>count = 0\<rparr>)) :: (counter, string) cell) = Val \<lparr>count = 0\<rparr>
   \<and> fst (createStore silent (Value (Val \<lparr>count = 0\<rparr>)) throwing_actions) = Inl ''boom''"
  by (simp add: createStore_def shadowing_actions_def throwing_actions_def observable_members
      call_get_def answer_def counter_cell_eq get_def)

text \<open>
  Claim C10. When the initializer function given to \<open>createObservable\<close> throws, the
  exception is caught, one line is written to the console, and the cell is created
  with \<open>current\<close> and \<open>future\<close> both \<open>undefined\<close> (the absent second argument of
  \<open>readValue\<close>), so \<open>get()\<close> returns \<open>undefined\<close>.
\<close>

theorem throwing_initializer_gives_undefined:
  "f Undefined = Inl e \<Longrightarrow>
     current (createObservable (Function f)) = Undefined
     \<and> future (createObservable (Function f)) = Undefined
     \<and> get (createObservable (Function f)) = Undefined
     \<and> console (createObservable (Function f)) = [Failed_to_read_value (Function f) Undefined e]"
  by (simp add: createObservable_def readValue_def get_def)

theorem throwing_initializer_gives_undefined_witness:
  "boom Undefined = Inl ''boom''
   \<and> current (createObservable (Function boom)) = Undefined
   \<and> future (createObservable (Function boom)) = Undefined
   \<and> get (createObservable (Function boom)) = Undefined
   \<and> console (createObservable (Function boom)) = [Failed_to_read_value (Function boom) Undefined ''boom'']"
proof -
  have h: "boom Undefined = Inl ''boom''"
    by (simp add: boom_def)
  from throwing_initializer_gives_undefined [of boom "''boom''"] h show ?thesis
    by simp
qed

end
